theory Spec2Isabelle
  imports Complex_Main "HOL-Library.Sublist"
begin

section \<open>Python strings and slices\<close>

text \<open>
  Texts are Python \<open>str\<close> values; they are modelled as \<^typ>\<open>string\<close>, one
  \<^typ>\<open>char\<close> per code point (code points below 256). \<open>is_space\<close> is the set of
  such code points that \<open>str.strip()\<close> and \<open>str.split()\<close> treat as whitespace.
\<close>

definition is_space :: "char \<Rightarrow> bool" where
  "is_space c =
     (let n = (of_char c :: nat)
      in (9 \<le> n \<and> n \<le> 13) \<or> (28 \<le> n \<and> n \<le> 32) \<or> n = 133 \<or> n = 160)"

definition lstrip :: "string \<Rightarrow> string" where
  "lstrip s = dropWhile is_space s"

definition rstrip :: "string \<Rightarrow> string" where
  "rstrip s = rev (dropWhile is_space (rev s))"

definition strip :: "string \<Rightarrow> string" where
  "strip s = rstrip (lstrip s)"

text \<open>
  \<open>xs[i:j]\<close>: a negative bound counts from the end, and every bound is clamped
  to the sequence.
\<close>

definition slice_bound :: "nat \<Rightarrow> int \<Rightarrow> nat" where
  "slice_bound n i = (if i < 0 then nat (max 0 (int n + i)) else min n (nat i))"

definition py_slice :: "'a list \<Rightarrow> int \<Rightarrow> int \<Rightarrow> 'a list" where
  "py_slice xs i j =
     (let a = slice_bound (length xs) i; b = slice_bound (length xs) j
      in take (b - a) (drop a xs))"

text \<open>\<open>s.rfind(pat)\<close>: the highest index at which \<open>pat\<close> occurs in \<open>s\<close>, or -1.\<close>

definition occurrences :: "string \<Rightarrow> string \<Rightarrow> nat list" where
  "occurrences s pat =
     filter (\<lambda>i. take (length pat) (drop i s) = pat) [0 ..< Suc (length s - length pat)]"

definition rfind :: "string \<Rightarrow> string \<Rightarrow> int" where
  "rfind s pat = (case occurrences s pat of [] \<Rightarrow> - 1 | i # js \<Rightarrow> int (last (i # js)))"

text \<open>\<open>a or b\<close> on an optional integer: \<open>None\<close> and 0 are both falsy.\<close>

definition py_or :: "int option \<Rightarrow> int \<Rightarrow> int" where
  "py_or v d = (case v of None \<Rightarrow> d | Some x \<Rightarrow> if x = 0 then d else x)"

section \<open>Configuration (config.py)\<close>

definition CHUNK_SIZE :: int where
  "CHUNK_SIZE = 1000"

definition CHUNK_OVERLAP :: int where
  "CHUNK_OVERLAP = 200"

definition TOP_K_RESULTS :: int where
  "TOP_K_RESULTS = 3"

section \<open>DocumentProcessor.chunk_text\<close>

definition puncts :: "string list" where
  "puncts = [''. '', [CHR ''.'', CHR 0x0A], ''! '', [CHR ''!'', CHR 0x0A],
             ''? '', [CHR ''?'', CHR 0x0A]]"

text \<open>
  The \<open>for punct in [...]\<close> loop: the first marker, in list order, whose last occurrence
  in the window lies beyond half the chunk size decides the cut; the result is the
  offset of the cut inside the window. The test \<open>last_punct > chunk_size * 0.5\<close> is
  \<open>2 * last_punct > chunk_size\<close> on integers.
\<close>

fun first_cut :: "string \<Rightarrow> int \<Rightarrow> string list \<Rightarrow> int option" where
  "first_cut w cs [] = None"
| "first_cut w cs (p # ps) =
     (let last_punct = rfind w p
      in if 2 * last_punct > cs then Some (last_punct + int (length p))
         else first_cut w cs ps)"

definition window_end :: "string \<Rightarrow> int \<Rightarrow> int \<Rightarrow> int" where
  "window_end text cs start =
     (let e = start + cs
      in if e < int (length text)
         then (case first_cut (py_slice text start e) cs puncts of
                 Some off \<Rightarrow> start + off
               | None \<Rightarrow> e)
         else e)"

text \<open>
  The \<open>while start < len(text)\<close> loop. It need not terminate, so it is a partial
  function: \<open>None\<close> is the loop that never returns.
\<close>

partial_function (option) chunk_loop ::
  "string \<Rightarrow> int \<Rightarrow> int \<Rightarrow> int \<Rightarrow> string list \<Rightarrow> string list option" where
  "chunk_loop text cs ov start chunks =
     (if start < int (length text)
      then (let e = window_end text cs start;
                chunk = strip (py_slice text start e)
            in chunk_loop text cs ov (e - ov)
                 (if chunk \<noteq> [] then chunks @ [chunk] else chunks))
      else Some chunks)"

definition chunk_text :: "string \<Rightarrow> int option \<Rightarrow> int option \<Rightarrow> string list option" where
  "chunk_text text chunk_size overlap =
     (let cs = py_or chunk_size CHUNK_SIZE;
          ov = py_or overlap CHUNK_OVERLAP
      in if int (length text) \<le> cs then Some [text]
         else chunk_loop text cs ov 0 [])"

declare chunk_loop.simps [code]

text \<open>
  The cut as the specification words it: the last position in the window at which any
  of the six markers occurs decides, when it lies at or after half the chunk size.
\<close>

definition spec_window_end :: "string \<Rightarrow> int \<Rightarrow> int \<Rightarrow> int" where
  "spec_window_end text cs start =
     (let e = start + cs;
          w = py_slice text start e;
          ms = concat (map (occurrences w) puncts)
      in if e < int (length text) \<and> ms \<noteq> [] \<and> cs \<le> 2 * int (fold max ms 0)
         then start + int (fold max ms 0) + 2
         else e)"

section \<open>More string operations\<close>

text \<open>\<open>sep.join(parts)\<close>.\<close>

fun join :: "string \<Rightarrow> string list \<Rightarrow> string" where
  "join sep [] = []"
| "join sep [x] = x"
| "join sep (x # y # ys) = x @ sep @ join sep (y # ys)"

text \<open>\<open>s.split(sep)\<close> for a one-character separator: always at least one field.\<close>

fun split_on :: "char \<Rightarrow> string \<Rightarrow> string list" where
  "split_on sep [] = [[]]"
| "split_on sep (c # cs) =
     (if c = sep then [] # split_on sep cs
      else (case split_on sep cs of
              w # ws \<Rightarrow> (c # w) # ws
            | [] \<Rightarrow> [[c]]))"

text \<open>\<open>s.split()\<close>: the maximal runs of non-whitespace characters.\<close>

fun words_from :: "string \<Rightarrow> string \<Rightarrow> string list" where
  "words_from cur [] = (if cur = [] then [] else [cur])"
| "words_from cur (c # cs) =
     (if is_space c
      then (if cur = [] then words_from [] cs else cur # words_from [] cs)
      else words_from (cur @ [c]) cs)"

definition split_ws :: "string \<Rightarrow> string list" where
  "split_ws s = words_from [] s"

text \<open>\<open>pat in s\<close> and \<open>s.startswith(pat)\<close>.\<close>

definition contains :: "string \<Rightarrow> string \<Rightarrow> bool" where
  "contains pat s = (occurrences s pat \<noteq> [])"

definition startswith :: "string \<Rightarrow> string \<Rightarrow> bool" where
  "startswith pat s = (take (length pat) s = pat)"

text \<open>
  \<open>s.lower()\<close> on code points below 256: the letters A to Z and the Latin-1 capitals
  (192 to 222 except the multiplication sign 215) move up by 32.
\<close>

definition lower_char :: "char \<Rightarrow> char" where
  "lower_char c =
     (let n = (of_char c :: nat)
      in if (65 \<le> n \<and> n \<le> 90) \<or> (192 \<le> n \<and> n \<le> 222 \<and> n \<noteq> 215)
         then char_of (n + 32) else c)"

definition lower :: "string \<Rightarrow> string" where
  "lower s = map lower_char s"

section \<open>OpenAIHelper: messages for answer\_question\<close>

record message =
  role :: string
  content :: string

definition newline :: char where
  "newline = CHR 0x0A"

definition qa_system_content :: string where
  "qa_system_content = join [newline]
     [''You are an intelligent assistant helping users understand documents. '',
      ''                '',
      ''Your task is to answer questions based on the provided document context. '',
      [],
      ''Guidelines:'',
      ''- Answer based ONLY on the information in the provided context'',
      ''- If the answer is not in the context, say '' @ [CHR 0x22]
        @ ''I cannot find that information in the document'' @ [CHR 0x22],
      ''- Be clear, concise, and helpful'',
      ''- Cite specific parts of the document when relevant'',
      ''- If the question is ambiguous, ask for clarification'']"

definition system_message :: message where
  "system_message = \<lparr>role = ''system'', content = qa_system_content\<rparr>"

definition user_message :: "string \<Rightarrow> string list \<Rightarrow> message" where
  "user_message question context_chunks =
     (let context = join ([newline, newline] @ ''---'' @ [newline, newline]) context_chunks
      in \<lparr>role = ''user'',
          content = ''Context from document:'' @ [newline] @ context @ [newline, newline]
                    @ ''Question: '' @ question\<rparr>)"

text \<open>
  \<open>if chat_history: for msg in chat_history[-4:]\<close>: nothing for \<open>None\<close> and for the
  empty list, otherwise the slice from index -4 to the end.
\<close>

definition history_window :: "message list option \<Rightarrow> message list" where
  "history_window chat_history =
     (case chat_history of
        None \<Rightarrow> []
      | Some h \<Rightarrow> if h = [] then [] else py_slice h (- 4) (int (length h)))"

definition answer_messages :: "string \<Rightarrow> string list \<Rightarrow> message list option \<Rightarrow> message list" where
  "answer_messages question context_chunks chat_history =
     [system_message] @ history_window chat_history @ [user_message question context_chunks]"

text \<open>
  The generation provider is a parameter: it receives the message sequence (the model
  name, the temperature 0.7 and the limit of 800 output tokens are constants of the
  call) and returns the answer text, or \<open>None\<close> when the call raises. Every exception
  is caught and turned into the result \<open>None\<close>.
\<close>

definition answer_question ::
  "(message list \<Rightarrow> string option) \<Rightarrow> string \<Rightarrow> string list \<Rightarrow> message list option \<Rightarrow> string option" where
  "answer_question generate question context_chunks chat_history =
     map_option strip (generate (answer_messages question context_chunks chat_history))"

section \<open>OpenAIHelper.\_parse\_insights\<close>

definition is_header :: "string \<Rightarrow> bool" where
  "is_header line = (contains ''KEY ENTITIES:'' line \<or> contains ''MAIN THEMES:'' line
                       \<or> contains ''ACTION ITEMS:'' line)"

text \<open>
  One iteration of the loop over the lines. The state is the dictionary and
  \<open>current_section\<close>; \<open>None\<close> as a result is the \<open>KeyError\<close> of
  \<open>insights[current_section]\<close> on a key the dictionary does not have.
\<close>

definition parse_line ::
  "(string \<rightharpoonup> string list) \<times> string option \<Rightarrow> string
     \<Rightarrow> ((string \<rightharpoonup> string list) \<times> string option) option" where
  "parse_line st raw =
     (let insights = fst st; current_section = snd st; line = strip raw
      in if contains ''KEY ENTITIES:'' line then Some (insights, Some ''entities'')
         else if contains ''MAIN THEMES:'' line then Some (insights, Some ''themes'')
         else if contains ''ACTION ITEMS:'' line then Some (insights, Some ''action_items'')
         else if startswith ''- '' line \<and> current_section \<noteq> None \<and> current_section \<noteq> Some []
         then (let item = strip (drop 2 line)
               in if item \<noteq> [] \<and> lower item \<noteq> ''none identified''
                  then (case insights (the current_section) of
                          None \<Rightarrow> None
                        | Some items \<Rightarrow>
                            Some (insights(the current_section \<mapsto> items @ [item]), current_section))
                  else Some st)
         else Some st)"

fun parse_lines ::
  "(string \<rightharpoonup> string list) \<times> string option \<Rightarrow> string list
     \<Rightarrow> ((string \<rightharpoonup> string list) \<times> string option) option" where
  "parse_lines st [] = Some st"
| "parse_lines st (raw # rest) =
     (case parse_line st raw of None \<Rightarrow> None | Some st' \<Rightarrow> parse_lines st' rest)"

definition parse_insights :: "string \<Rightarrow> (string \<rightharpoonup> string list) option" where
  "parse_insights content' =
     map_option fst
       (parse_lines ([''entities'' \<mapsto> [], ''themes'' \<mapsto> [], ''action_items'' \<mapsto> []], None)
          (split_on newline content'))"


text \<open>
  For the statement about \<open>_parse_insights\<close>: an item is contributed by the lines
  \<open>ls\<close> when some line of \<open>ls\<close> is, once trimmed, a line starting with \<open>''- ''\<close> that
  is not itself a section header, a section header line comes before it, and the item
  is the trimmed rest of that line. \<open>parse_inv\<close> is the loop invariant.
\<close>

definition insight_keys :: "string set" where
  "insight_keys = {''entities'', ''themes'', ''action_items''}"

definition contributed :: "string list \<Rightarrow> string \<Rightarrow> bool" where
  "contributed ls x =
     (\<exists>ls1 h ls2 raw ls3. ls = ls1 @ h # ls2 @ raw # ls3 \<and> is_header (strip h)
        \<and> startswith ''- '' (strip raw) \<and> \<not> is_header (strip raw)
        \<and> x = strip (drop 2 (strip raw)))"

definition good_item :: "string list \<Rightarrow> string \<Rightarrow> bool" where
  "good_item ls x = (x \<noteq> [] \<and> lower x \<noteq> ''none identified'' \<and> contributed ls x)"

definition parse_inv :: "string list \<Rightarrow> (string \<rightharpoonup> string list) \<times> string option \<Rightarrow> bool" where
  "parse_inv ls st =
     (dom (fst st) = insight_keys
      \<and> (snd st = None \<or>
          ((\<exists>k \<in> insight_keys. snd st = Some k) \<and> list_ex (\<lambda>l. is_header (strip l)) ls))
      \<and> (\<forall>k items x. fst st k = Some items \<and> x \<in> set items \<longrightarrow> good_item ls x))"

section \<open>merge\_overlapping\_chunks\<close>

definition normalize_chunk :: "string \<Rightarrow> string" where
  "normalize_chunk chunk = join '' '' (split_ws (lower chunk))"

text \<open>
  The test \<open>total > 0 and overlap / total > similarity_threshold\<close> on the word sets of
  two normalised chunks. The threshold and the quotient are floating-point numbers in
  the source and real numbers here.
\<close>

definition similar :: "real \<Rightarrow> string \<Rightarrow> string \<Rightarrow> bool" where
  "similar similarity_threshold normalized seen_chunk =
     (let a = set (split_ws normalized); b = set (split_ws seen_chunk);
          overlap = card (a \<inter> b); total = card (a \<union> b)
      in total > 0 \<and> real overlap / real total > similarity_threshold)"

fun dedup_loop :: "real \<Rightarrow> string list \<Rightarrow> string set \<Rightarrow> string list \<Rightarrow> string list" where
  "dedup_loop thr unique_chunks seen [] = unique_chunks"
| "dedup_loop thr unique_chunks seen (chunk # rest) =
     (let normalized = normalize_chunk chunk;
          is_duplicate = (\<exists>seen_chunk \<in> seen. similar thr normalized seen_chunk)
      in if \<not> is_duplicate
         then dedup_loop thr (unique_chunks @ [chunk]) (insert normalized seen) rest
         else dedup_loop thr unique_chunks seen rest)"

definition merge_overlapping_chunks :: "string list \<Rightarrow> real \<Rightarrow> string list" where
  "merge_overlapping_chunks chunks similarity_threshold =
     (if length chunks \<le> 1 then chunks
      else dedup_loop similarity_threshold [] {} chunks)"

text \<open>The same selection written as a direct recursion, for the proofs.\<close>

fun keep :: "real \<Rightarrow> string set \<Rightarrow> string list \<Rightarrow> string list" where
  "keep thr seen [] = []"
| "keep thr seen (chunk # rest) =
     (if \<exists>seen_chunk \<in> seen. similar thr (normalize_chunk chunk) seen_chunk
      then keep thr seen rest
      else chunk # keep thr (insert (normalize_chunk chunk) seen) rest)"

(*DEFS-END*)

section \<open>Properties of the chunker\<close>

lemma occurrences_bound:
  assumes "i \<in> set (occurrences s pat)"
  shows "take (length pat) (drop i s) = pat \<and> i + length pat \<le> length s"
proof -
  from assms have m: "take (length pat) (drop i s) = pat" and r: "i \<le> length s - length pat"
    by (auto simp: occurrences_def simp del: upt_Suc)
  from m have "length (take (length pat) (drop i s)) = length pat" by simp
  then have "length pat \<le> length s - i" by simp
  with r show ?thesis using m by arith
qed

lemma rfind_range:
  "rfind s pat = - 1 \<or> (0 \<le> rfind s pat \<and> rfind s pat + int (length pat) \<le> int (length s))"
proof (cases "occurrences s pat")
  case Nil
  then show ?thesis by (simp add: rfind_def)
next
  case (Cons i js)
  then have "last (i # js) \<in> set (occurrences s pat)"
    by (metis last_in_set list.distinct(1))
  from occurrences_bound[OF this] Cons show ?thesis
    by (simp add: rfind_def)
qed

lemma first_cut_Some:
  "first_cut w cs ps = Some off \<Longrightarrow>
     \<exists>p \<in> set ps. cs < 2 * rfind w p \<and> off = rfind w p + int (length p)"
  by (induction ps) (auto simp: Let_def split: if_splits)

lemma first_cut_skip:
  "list_all (\<lambda>q. 2 * rfind w q \<le> cs) ps \<Longrightarrow> first_cut w cs (ps @ qs) = first_cut w cs qs"
  by (induction ps) (auto simp: Let_def)

lemma first_cut_None:
  "list_all (\<lambda>q. 2 * rfind w q \<le> cs) ps \<Longrightarrow> first_cut w cs ps = None"
  by (induction ps) (auto simp: Let_def)

lemma length_puncts: "p \<in> set puncts \<Longrightarrow> length p = 2"
  by (auto simp: puncts_def)

lemma length_window:
  assumes "0 \<le> start" "0 \<le> cs" "start + cs \<le> int (length text)"
  shows "length (py_slice text start (start + cs)) = nat cs"
  using assms by (simp add: py_slice_def slice_bound_def Let_def)

lemma window_end_bounds:
  assumes "0 \<le> start" "0 < cs"
  shows "window_end text cs start \<le> start + cs \<and>
         (window_end text cs start = start + cs \<or> start + cs div 2 + 3 \<le> window_end text cs start)"
proof (cases "start + cs < int (length text)")
  case False
  then show ?thesis by (simp add: window_end_def Let_def)
next
  case inside: True
  let ?w = "py_slice text start (start + cs)"
  show ?thesis
  proof (cases "first_cut ?w cs puncts")
    case None
    with inside show ?thesis by (simp add: window_end_def Let_def)
  next
    case (Some off)
    from first_cut_Some[OF Some] obtain p where p: "p \<in> set puncts"
      and half: "cs < 2 * rfind ?w p" and off: "off = rfind ?w p + int (length p)"
      by blast
    from rfind_range[of ?w p] half assms have "rfind ?w p + int (length p) \<le> int (length ?w)"
      by auto
    moreover have "length ?w = nat cs"
      using length_window[of start cs "text"] assms inside by simp
    ultimately have "off \<le> cs" using off assms by simp
    moreover from half off length_puncts[OF p] have "cs div 2 + 3 \<le> off" by simp
    ultimately show ?thesis using inside Some by (simp add: window_end_def Let_def)
  qed
qed

lemma progress:
  assumes "0 \<le> start" "ov < cs" "ov \<le> cs div 2 + 2" "0 \<le> ov"
  shows "start < window_end text cs start - ov"
  using window_end_bounds[of start cs "text"] assms by auto

lemma strip_Nil_iff: "strip s = [] \<longleftrightarrow> list_all is_space s"
proof -
  have "strip s = [] \<longleftrightarrow> (\<forall>c \<in> set (dropWhile is_space s). is_space c)"
    by (simp add: strip_def rstrip_def lstrip_def dropWhile_eq_Nil_conv)
  also have "\<dots> \<longleftrightarrow> dropWhile is_space s = []"
  proof
    assume a: "\<forall>c \<in> set (dropWhile is_space s). is_space c"
    show "dropWhile is_space s = []"
    proof (rule ccontr)
      assume n: "dropWhile is_space s \<noteq> []"
      then have "\<not> is_space (hd (dropWhile is_space s))" by (rule hd_dropWhile)
      moreover from n have "hd (dropWhile is_space s) \<in> set (dropWhile is_space s)" by simp
      ultimately show False using a by blast
    qed
  qed (auto dest: set_dropWhileD)
  also have "\<dots> \<longleftrightarrow> list_all is_space s"
    by (simp add: dropWhile_eq_Nil_conv list_all_iff)
  finally show ?thesis .
qed

lemma chunk_loop_diverges:
  assumes "I start"
      and step: "\<And>s. I s \<Longrightarrow> s < int (length t) \<and> I (window_end t cs s - ov)"
  shows "chunk_loop t cs ov start chunks = None"
proof -
  have inv: "\<not> (t' = t \<and> cs' = cs \<and> ov' = ov \<and> I s)"
    if "chunk_loop t' cs' ov' s ch = Some y" for t' cs' ov' s ch y
  proof (rule chunk_loop.raw_induct
      [where P = "\<lambda>t' cs' ov' s ch y. \<not> (t' = t \<and> cs' = cs \<and> ov' = ov \<and> I s)", OF _ that])
    fix f t' cs' ov' s ch y
    assume IH: "\<And>t' cs' ov' s ch y. f t' cs' ov' s ch = Some y \<Longrightarrow>
                  \<not> (t' = t \<and> cs' = cs \<and> ov' = ov \<and> I s)"
      and eq: "(if s < int (length t')
                then let e = window_end t' cs' s; chunk = strip (py_slice t' s e)
                     in f t' cs' ov' (e - ov') (if chunk \<noteq> [] then ch @ [chunk] else ch)
                else Some ch) = Some y"
    show "\<not> (t' = t \<and> cs' = cs \<and> ov' = ov \<and> I s)"
    proof
      assume a: "t' = t \<and> cs' = cs \<and> ov' = ov \<and> I s"
      with step[of s] have lt: "s < int (length t)" and nx: "I (window_end t cs s - ov)"
        by auto
      from eq a lt obtain ch' where "f t cs ov (window_end t cs s - ov) ch' = Some y"
        by (auto simp: Let_def split: if_splits)
      from IH[OF this] nx show False by simp
    qed
  qed
  show ?thesis
  proof (cases "chunk_loop t cs ov start chunks")
    case (Some y)
    from inv[OF this] assms(1) show ?thesis by simp
  qed simp
qed

lemma slice_to_end:
  assumes "0 \<le> start" "int (length t) \<le> e"
  shows "py_slice t start e = drop (nat start) t"
  using assms by (auto simp: py_slice_def slice_bound_def Let_def min_def)

lemma slice_from_start:
  assumes "0 \<le> e"
  shows "py_slice t 0 e = take (nat e) t"
  using assms by (simp add: py_slice_def slice_bound_def Let_def min_def)

lemma chunk_loop_terminates:
  assumes ov: "0 \<le> ov" "ov < cs" "ov \<le> cs div 2 + 2"
      and st: "0 \<le> start"
  shows "\<exists>r. chunk_loop t cs ov start acc = Some r \<and> length acc \<le> length r \<and>
             (start < int (length t) \<and> \<not> is_space (last t) \<longrightarrow> length acc < length r)"
  using st
proof (induction "nat (int (length t) - start)" arbitrary: start acc rule: less_induct)
  case less
  show ?case
  proof (cases "start < int (length t)")
    case False
    then show ?thesis by (subst chunk_loop.simps) simp
  next
    case True
    define e where "e = window_end t cs start"
    define chunk where "chunk = strip (py_slice t start e)"
    define acc' where "acc' = (if chunk \<noteq> [] then acc @ [chunk] else acc)"
    have unf: "chunk_loop t cs ov start acc = chunk_loop t cs ov (e - ov) acc'"
      using True by (subst chunk_loop.simps) (simp add: Let_def e_def chunk_def acc'_def)
    have pr: "start < e - ov"
      unfolding e_def using progress[OF less.prems ov(2) ov(3) ov(1)] .
    then have "nat (int (length t) - (e - ov)) < nat (int (length t) - start)" "0 \<le> e - ov"
      using True less.prems by auto
    from less.hyps[OF this] obtain r where r: "chunk_loop t cs ov (e - ov) acc' = Some r"
      and mono: "length acc' \<le> length r"
      and strict: "e - ov < int (length t) \<and> \<not> is_space (last t) \<longrightarrow> length acc' < length r"
      by blast
    have le: "length acc \<le> length acc'" by (simp add: acc'_def)
    have "length acc < length r" if ns: "\<not> is_space (last t)"
    proof (cases "e - ov < int (length t)")
      case True
      with strict ns le show ?thesis by auto
    next
      case False
      with ov(1) have "int (length t) \<le> e" by simp
      with less.prems have sl: "py_slice t start e = drop (nat start) t"
        by (rule slice_to_end)
      have ne: "drop (nat start) t \<noteq> []" using \<open>start < int (length t)\<close> less.prems by simp
      then have "last (drop (nat start) t) = last t" by (simp add: last_drop)
      with ne ns have "\<not> list_all is_space (drop (nat start) t)"
        by (metis last_in_set list_all_iff)
      then have "chunk \<noteq> []" by (simp add: chunk_def sl strip_Nil_iff)
      then have "length acc < length acc'" by (simp add: acc'_def)
      with mono show ?thesis by simp
    qed
    with r mono le unf show ?thesis by auto
  qed
qed

text \<open>
  Claim C4 (single-chunk case). A text no longer than the chunk size is returned as the
  single chunk, but as it is, not trimmed: the early return skips the \<open>strip()\<close> that
  the window loop applies to every chunk.
\<close>

theorem chunk_text_short_untrimmed:
  "chunk_text '' a'' None None = Some ['' a''] \<and> strip '' a'' = ''a''"
  by code_simp

text \<open>
  Claim C3 (sentence-boundary cut), as the code has it. For a window whose raw end
  \<open>start + chunk_size\<close> lies strictly inside the text: the markers are tried in the order
  of \<open>puncts\<close>, and the first one whose last occurrence in the window lies strictly
  beyond half the chunk size decides the cut, immediately after that occurrence (the
  markers before it in the order having their last occurrence strictly before the half,
  or none). When every marker's last occurrence lies strictly before the half (or it
  does not occur), the cut is the raw offset. The chunk is the trimmed slice up to the
  cut.
\<close>

theorem window_end_cut:
  assumes inside: "start + cs < int (length text)"
  shows "(\<forall>ps p qs. puncts = ps @ p # qs \<and> list_all (\<lambda>q. 2 * rfind (py_slice text start (start + cs)) q < cs) ps
               \<and> cs < 2 * rfind (py_slice text start (start + cs)) p
            \<longrightarrow> window_end text cs start = start + rfind (py_slice text start (start + cs)) p + 2)
       \<and> (list_all (\<lambda>q. 2 * rfind (py_slice text start (start + cs)) q < cs) puncts
            \<longrightarrow> window_end text cs start = start + cs)"
proof (intro conjI allI impI)
  let ?w = "py_slice text start (start + cs)"
  fix ps p qs
  assume a: "puncts = ps @ p # qs \<and> list_all (\<lambda>q. 2 * rfind ?w q < cs) ps \<and> cs < 2 * rfind ?w p"
  then have eq: "puncts = ps @ p # qs" and before: "list_all (\<lambda>q. 2 * rfind ?w q < cs) ps"
    and half: "cs < 2 * rfind ?w p"
    by blast+
  from before have "list_all (\<lambda>q. 2 * rfind ?w q \<le> cs) ps"
    by (auto simp: list_all_iff intro: less_imp_le)
  then have skip: "first_cut ?w cs (ps @ p # qs) = first_cut ?w cs (p # qs)"
    by (rule first_cut_skip)
  have "p \<in> set puncts" by (subst eq) simp
  then have len: "length p = 2" by (rule length_puncts)
  have "first_cut ?w cs (p # qs) = Some (rfind ?w p + 2)"
    using half len by (simp add: Let_def)
  with skip have "first_cut ?w cs puncts = Some (rfind ?w p + 2)"
    by (subst eq) simp
  with inside show "window_end text cs start = start + rfind ?w p + 2"
    by (simp add: window_end_def Let_def)
next
  let ?w = "py_slice text start (start + cs)"
  assume "list_all (\<lambda>q. 2 * rfind ?w q < cs) puncts"
  then have "list_all (\<lambda>q. 2 * rfind ?w q \<le> cs) puncts"
    by (auto simp: list_all_iff intro: less_imp_le)
  then have "first_cut ?w cs puncts = None" by (rule first_cut_None)
  with inside show "window_end text cs start = start + cs"
    by (simp add: window_end_def Let_def)
qed

theorem window_end_cut_witness:
  "(0::int) + 12 < int (length ''aaaaaaa. b! cdefgh'')
   \<and> rfind (py_slice ''aaaaaaa. b! cdefgh'' 0 (0 + 12)) ''. '' = 7
   \<and> window_end ''aaaaaaa. b! cdefgh'' 12 0 = 9"
proof -
  let ?t = "''aaaaaaa. b! cdefgh''"
  have inside: "(0::int) + 12 < int (length ?t)" by simp
  have r: "rfind (py_slice ?t 0 (0 + 12)) ''. '' = 7" by code_simp
  have p: "puncts = [] @ ''. '' # [[CHR ''.'', CHR 0x0A], ''! '', [CHR ''!'', CHR 0x0A],
             ''? '', [CHR ''?'', CHR 0x0A]]"
    by (simp add: puncts_def)
  have "puncts = [] @ ''. '' # [[CHR ''.'', CHR 0x0A], ''! '', [CHR ''!'', CHR 0x0A],
             ''? '', [CHR ''?'', CHR 0x0A]]
        \<and> list_all (\<lambda>q. 2 * rfind (py_slice ?t 0 (0 + 12)) q < 12) []
        \<and> 12 < 2 * rfind (py_slice ?t 0 (0 + 12)) ''. ''
      \<longrightarrow> window_end ?t 12 0 = 0 + rfind (py_slice ?t 0 (0 + 12)) ''. '' + 2"
    using window_end_cut[OF inside] by blast
  with p r have "window_end ?t 12 0 = 9" by simp
  with inside r show ?thesis by simp
qed

text \<open>
  The claim as stated fails: here both \<open>''. ''\<close> (at 7) and \<open>''! ''\<close> (at 10) occur
  beyond half of the window of 12, the last marker occurrence is the one at 10, and the
  code cuts after the one at 7.
\<close>

theorem window_end_not_last_marker:
  "window_end ''aaaaaaa. b! cdefgh'' 12 0 = 9 \<and>
   spec_window_end ''aaaaaaa. b! cdefgh'' 12 0 = 12"
  by code_simp

text \<open>
  Claim C2 (termination and progress), as the code has it. With the effective chunk
  size and overlap (\<open>None\<close> and 0 replaced by the configured 1000 and 200), a text longer
  than the chunk size, and \<open>0 \<le> overlap < chunk_size\<close> with
  \<open>overlap \<le> chunk_size div 2 + 2\<close>: every window starting at a non-negative offset
  moves the start strictly forward, the loop returns, and it returns at least two
  chunks when the text neither starts nor ends with whitespace.
\<close>

theorem chunk_text_progress:
  assumes cs: "cs = py_or chunk_size CHUNK_SIZE" and ov: "ov = py_or overlap CHUNK_OVERLAP"
      and long: "cs < int (length text)"
      and o: "0 \<le> ov" "ov < cs" "ov \<le> cs div 2 + 2"
  shows "(\<forall>start. 0 \<le> start \<longrightarrow> start < window_end text cs start - ov)
       \<and> (\<exists>chunks. chunk_text text chunk_size overlap = Some chunks
            \<and> (\<not> is_space (hd text) \<and> \<not> is_space (last text) \<longrightarrow> 2 \<le> length chunks))"
proof (intro conjI allI impI)
  fix start :: int assume "0 \<le> start"
  then show "start < window_end text cs start - ov"
    using o by (simp add: progress)
next
  define e where "e = window_end text cs 0"
  define chunk where "chunk = strip (py_slice text 0 e)"
  define acc where "acc = (if chunk \<noteq> [] then [chunk] else [])"
  have pos: "0 < length text" using long o by auto
  have unf: "chunk_loop text cs ov 0 [] = chunk_loop text cs ov (e - ov) acc"
    using pos by (subst chunk_loop.simps) (simp add: Let_def e_def chunk_def acc_def)
  have pr: "0 < e - ov" unfolding e_def using progress[of 0 ov cs "text"] o by simp
  have ub: "e \<le> cs" unfolding e_def using window_end_bounds[of 0 cs "text"] o by simp
  then have nx: "e - ov < int (length text)" using long o by simp
  from chunk_loop_terminates[OF o, of "e - ov" "text" acc] pr obtain r
    where r: "chunk_loop text cs ov (e - ov) acc = Some r"
      and mono: "length acc \<le> length r"
      and strict: "e - ov < int (length text) \<and> \<not> is_space (last text) \<longrightarrow> length acc < length r"
    by auto
  have "2 \<le> length r" if ns: "\<not> is_space (hd text) \<and> \<not> is_space (last text)"
  proof -
    have "0 \<le> e" using pr o by simp
    then have sl: "py_slice text 0 e = take (nat e) text" by (rule slice_from_start)
    have "0 < nat e" using pr o by simp
    with pos have "hd text \<in> set (take (nat e) text)"
      by (cases "text"; cases "nat e") auto
    with ns have "\<not> list_all is_space (take (nat e) text)" by (auto simp: list_all_iff)
    then have "chunk \<noteq> []" by (simp add: chunk_def sl strip_Nil_iff)
    then have "length acc = 1" by (simp add: acc_def)
    with strict nx ns show ?thesis by simp
  qed
  with r unf long cs ov show "\<exists>chunks. chunk_text text chunk_size overlap = Some chunks
            \<and> (\<not> is_space (hd text) \<and> \<not> is_space (last text) \<longrightarrow> 2 \<le> length chunks)"
    by (simp add: chunk_text_def Let_def)
qed

theorem chunk_text_progress_witness:
  "(10::int) < int (length ''abc def. ghi jkl. mnop'')
   \<and> (0::int) < window_end ''abc def. ghi jkl. mnop'' 10 0 - 2
   \<and> (\<exists>chunks. chunk_text ''abc def. ghi jkl. mnop'' (Some 10) (Some 2) = Some chunks
         \<and> 2 \<le> length chunks)"
proof -
  let ?t = "''abc def. ghi jkl. mnop''"
  have h: "(10::int) = py_or (Some 10) CHUNK_SIZE" "(2::int) = py_or (Some 2) CHUNK_OVERLAP"
    "(10::int) < int (length ?t)" "(0::int) \<le> 2" "(2::int) < 10" "(2::int) \<le> 10 div 2 + 2"
    by (simp_all add: py_or_def)
  have ns: "\<not> is_space (hd ?t) \<and> \<not> is_space (last ?t)"
    by (simp add: is_space_def)
  from chunk_text_progress[OF h] ns h(3) show ?thesis
    by blast
qed

text \<open>
  The claim as stated fails twice. With chunk size 10 and overlap 9 the window cut
  after the marker at 7 ends at 9, the next window starts at 0 again, and the loop
  never returns. A text of whitespace gives no chunk at all, since empty chunks are
  dropped.
\<close>

theorem chunk_text_no_progress:
  "chunk_text ''aaaaaaa. bbbbb'' (Some 10) (Some 9) = None
   \<and> window_end ''aaaaaaa. bbbbb'' 10 0 - 9 = 0
   \<and> chunk_text ''     '' (Some 2) (Some 1) = Some []"
proof -
  have w: "window_end ''aaaaaaa. bbbbb'' 10 0 = 9" by code_simp
  have "chunk_loop ''aaaaaaa. bbbbb'' 10 9 0 [] = None"
  proof (rule chunk_loop_diverges[where I = "\<lambda>s. s = 0"])
    fix s :: int assume "s = 0"
    with w show "s < int (length ''aaaaaaa. bbbbb'') \<and> window_end ''aaaaaaa. bbbbb'' 10 s - 9 = 0"
      by simp
  qed simp
  then have a: "chunk_text ''aaaaaaa. bbbbb'' (Some 10) (Some 9) = None"
    by (simp add: chunk_text_def py_or_def)
  have b: "chunk_text ''     '' (Some 2) (Some 1) = Some []" by code_simp
  from a b w show ?thesis by simp
qed

section \<open>Properties of the question-answering messages\<close>

lemma history_window_drop:
  "history_window hist = (case hist of None \<Rightarrow> [] | Some h \<Rightarrow> drop (length h - 4) h)"
proof -
  have "nat (max 0 (int n - 4)) = n - 4" for n :: nat by arith
  then show ?thesis
    by (cases hist) (auto simp: history_window_def py_slice_def slice_bound_def Let_def)
qed

text \<open>
  Claim C7 (history window). The message sequence handed to the generation provider is
  the system message, then the history window, then the user message with the context
  and the question. The window is the last four messages of the history (all of them
  when there are fewer, none when the history is absent or empty), in their order: it
  is a suffix of the history of length at most four.
\<close>

theorem answer_messages_history_window:
  "answer_messages q ctx hist = system_message # history_window hist @ [user_message q ctx]
   \<and> answer_question generate q ctx hist
       = map_option strip (generate (system_message # history_window hist @ [user_message q ctx]))
   \<and> history_window hist = (case hist of None \<Rightarrow> [] | Some h \<Rightarrow> drop (length h - 4) h)
   \<and> length (history_window hist) \<le> 4
   \<and> suffix (history_window hist) (case hist of None \<Rightarrow> [] | Some h \<Rightarrow> h)"
proof -
  have "length (history_window hist) \<le> 4"
    by (cases hist) (auto simp: history_window_drop)
  moreover have "suffix (history_window hist) (case hist of None \<Rightarrow> [] | Some h \<Rightarrow> h)"
    by (cases hist) (auto simp: history_window_drop suffix_drop)
  ultimately show ?thesis
    by (simp add: answer_messages_def answer_question_def history_window_drop)
qed

section \<open>Properties of the chunk deduplication\<close>

lemma dedup_loop_keep: "dedup_loop thr u S xs = u @ keep thr S xs"
  by (induction xs arbitrary: u S) (auto simp: Let_def)

lemma subseq_keep: "subseq (keep thr S xs) xs"
  by (induction xs arbitrary: S) auto

lemma keep_idem: "keep thr S (keep thr S xs) = keep thr S xs"
  by (induction xs arbitrary: S) auto

lemma keep_empty_seen_head: "take 1 (keep thr {} xs) = take 1 xs"
  by (cases xs) auto

text \<open>
  Claim C10 (deduplication). For every chunk list and threshold the result of
  \<open>merge_overlapping_chunks\<close> is a subsequence of the input (chunks in their original
  order, the first chunk always kept, a later chunk dropped exactly when it is similar
  to a chunk kept before it, which is the recursion \<open>keep\<close>), and applying the function
  to its own result with the same threshold changes nothing. The proof uses nothing of
  the similarity test, so it does not depend on how the quotient is rounded.
\<close>

theorem merge_overlapping_chunks_subseq_idem:
  "subseq (merge_overlapping_chunks chunks thr) chunks
   \<and> merge_overlapping_chunks (merge_overlapping_chunks chunks thr) thr
       = merge_overlapping_chunks chunks thr
   \<and> take 1 (merge_overlapping_chunks chunks thr) = take 1 chunks
   \<and> merge_overlapping_chunks chunks thr = keep thr {} chunks"
proof -
  have k: "merge_overlapping_chunks cs thr = keep thr {} cs" for cs
  proof (cases cs)
    case Nil
    then show ?thesis by (simp add: merge_overlapping_chunks_def)
  next
    case (Cons c rest)
    then show ?thesis
      by (cases rest) (auto simp: merge_overlapping_chunks_def dedup_loop_keep)
  qed
  have "take 1 (keep thr {} chunks) = take 1 chunks" by (rule keep_empty_seen_head)
  then show ?thesis
    unfolding k by (simp add: subseq_keep keep_idem)
qed

section \<open>Properties of the insight parser\<close>

lemma keys_mem: "''entities'' \<in> insight_keys" "''themes'' \<in> insight_keys"
  "''action_items'' \<in> insight_keys" "[] \<notin> insight_keys"
  by (simp_all add: insight_keys_def)

lemma contributed_append: "contributed ls x \<Longrightarrow> contributed (ls @ ys) x"
proof -
  assume "contributed ls x"
  then obtain ls1 h ls2 raw ls3 where d: "ls = ls1 @ h # ls2 @ raw # ls3"
    and p: "is_header (strip h)" "startswith ''- '' (strip raw)" "\<not> is_header (strip raw)"
      "x = strip (drop 2 (strip raw))"
    unfolding contributed_def by blast
  from d have "ls @ ys = ls1 @ h # ls2 @ raw # (ls3 @ ys)" by simp
  with p show ?thesis unfolding contributed_def by blast
qed

lemma good_item_append: "good_item ls x \<Longrightarrow> good_item (ls @ ys) x"
  by (simp add: good_item_def contributed_append)

lemma contributed_last:
  assumes "list_ex (\<lambda>l. is_header (strip l)) ls" "startswith ''- '' (strip raw)"
    "\<not> is_header (strip raw)"
  shows "contributed (ls @ [raw]) (strip (drop 2 (strip raw)))"
proof -
  from assms(1) obtain h where "h \<in> set ls" "is_header (strip h)"
    by (auto simp: list_ex_iff)
  then obtain ls1 ls2 where "ls = ls1 @ h # ls2" by (auto simp: in_set_conv_decomp)
  then have "ls @ [raw] = ls1 @ h # ls2 @ raw # []" by simp
  with \<open>is_header (strip h)\<close> assms(2,3) show ?thesis
    unfolding contributed_def by blast
qed

lemma parse_line_header:
  assumes "is_header (strip raw)"
  shows "\<exists>k \<in> insight_keys. parse_line (ins, cur) raw = Some (ins, Some k)"
proof (cases "contains ''KEY ENTITIES:'' (strip raw)")
  case True
  then have "parse_line (ins, cur) raw = Some (ins, Some ''entities'')"
    by (simp add: parse_line_def)
  then show ?thesis using keys_mem(1) by blast
next
  case a: False
  show ?thesis
  proof (cases "contains ''MAIN THEMES:'' (strip raw)")
    case True
    with a have "parse_line (ins, cur) raw = Some (ins, Some ''themes'')"
      by (simp add: parse_line_def)
    then show ?thesis using keys_mem(2) by blast
  next
    case b: False
    with a assms have "contains ''ACTION ITEMS:'' (strip raw)" by (simp add: is_header_def)
    with a b have "parse_line (ins, cur) raw = Some (ins, Some ''action_items'')"
      by (simp add: parse_line_def)
    then show ?thesis using keys_mem(3) by blast
  qed
qed

lemma not_header:
  assumes "\<not> is_header line"
  shows "\<not> contains ''KEY ENTITIES:'' line" "\<not> contains ''MAIN THEMES:'' line"
    "\<not> contains ''ACTION ITEMS:'' line"
  using assms by (simp_all add: is_header_def)

lemma parse_line_item:
  assumes "\<not> is_header (strip raw)" "startswith ''- '' (strip raw)" "key \<noteq> []"
    "strip (drop 2 (strip raw)) \<noteq> []"
    "lower (strip (drop 2 (strip raw))) \<noteq> ''none identified''"
    "ins key = Some old"
  shows "parse_line (ins, Some key) raw
         = Some (ins(key \<mapsto> old @ [strip (drop 2 (strip raw))]), Some key)"
  using not_header[OF assms(1)] assms(2-6) by (simp add: parse_line_def Let_def)

lemma parse_line_skip:
  assumes "\<not> is_header (strip raw)"
    "\<not> (startswith ''- '' (strip raw) \<and> cur \<noteq> None \<and> cur \<noteq> Some []
        \<and> strip (drop 2 (strip raw)) \<noteq> []
        \<and> lower (strip (drop 2 (strip raw))) \<noteq> ''none identified'')"
  shows "parse_line (ins, cur) raw = Some (ins, cur)"
  using not_header[OF assms(1)] assms(2) by (auto simp: parse_line_def Let_def)

lemma parse_line_inv:
  assumes inv: "parse_inv ls st"
  shows "\<exists>st'. parse_line st raw = Some st' \<and> parse_inv (ls @ [raw]) st'"
proof -
  obtain ins cur where st: "st = (ins, cur)" by (cases st)
  from inv have dom: "dom ins = insight_keys"
    and cur: "cur = None \<or>
          ((\<exists>k \<in> insight_keys. cur = Some k) \<and> list_ex (\<lambda>l. is_header (strip l)) ls)"
    and items: "\<And>k items x. ins k = Some items \<Longrightarrow> x \<in> set items \<Longrightarrow> good_item ls x"
    unfolding parse_inv_def st by simp_all
  have items': "good_item (ls @ [raw]) x" if "ins k = Some its" "x \<in> set its" for k its x
    using items[OF that] by (rule good_item_append)
  show ?thesis
  proof (cases "is_header (strip raw)")
    case True
    from parse_line_header[OF True, of ins cur] obtain k
      where k: "k \<in> insight_keys" and r: "parse_line (ins, cur) raw = Some (ins, Some k)"
      by blast
    have "list_ex (\<lambda>l. is_header (strip l)) (ls @ [raw])"
      using True by (simp add: list_ex_iff)
    with k dom items' have "parse_inv (ls @ [raw]) (ins, Some k)"
      unfolding parse_inv_def by auto
    with r st show ?thesis by simp
  next
    case nh: False
    let ?item = "strip (drop 2 (strip raw))"
    have hd_mono: "list_ex (\<lambda>l. is_header (strip l)) (ls @ [raw])"
      if "list_ex (\<lambda>l. is_header (strip l)) ls"
      using that by (simp add: list_ex_iff)
    show ?thesis
    proof (cases "startswith ''- '' (strip raw) \<and> cur \<noteq> None \<and> cur \<noteq> Some []
                  \<and> ?item \<noteq> [] \<and> lower ?item \<noteq> ''none identified''")
      case False
      from parse_line_skip[OF nh False] have r: "parse_line st raw = Some (ins, cur)"
        by (simp add: st)
      have "parse_inv (ls @ [raw]) (ins, cur)"
        unfolding parse_inv_def using dom cur items' hd_mono by auto
      with r show ?thesis by blast
    next
      case True
      with cur obtain key where key: "cur = Some key" "key \<in> insight_keys"
        and hd: "list_ex (\<lambda>l. is_header (strip l)) ls"
        by auto
      from key(2) dom obtain old where old: "ins key = Some old" by blast
      from key(2) keys_mem(4) have kne: "key \<noteq> []" by metis
      have c: "good_item (ls @ [raw]) ?item"
        using contributed_last[OF hd _ nh] True by (simp add: good_item_def)
      have r: "parse_line st raw = Some (ins(key \<mapsto> old @ [?item]), cur)"
        using parse_line_item[of raw key ins old] nh kne old True by (simp add: st key(1))
      have d': "dom (ins(key \<mapsto> old @ [?item])) = insight_keys"
        using dom key(2) by auto
      have i': "good_item (ls @ [raw]) x"
        if "(ins(key \<mapsto> old @ [?item])) k = Some its" "x \<in> set its" for k its x
      proof (cases "k = key")
        case True
        with that have "x \<in> set old \<or> x = ?item" by auto
        then show ?thesis using items'[OF old] c by blast
      next
        case False
        with that show ?thesis using items'[of k its x] by simp
      qed
      have "parse_inv (ls @ [raw]) (ins(key \<mapsto> old @ [?item]), cur)"
        unfolding parse_inv_def fst_conv snd_conv
      proof (intro conjI)
        show "dom (ins(key \<mapsto> old @ [?item])) = insight_keys" by (rule d')
        show "cur = None \<or> (\<exists>k\<in>insight_keys. cur = Some k) \<and>
              list_ex (\<lambda>l. is_header (strip l)) (ls @ [raw])"
          using key hd_mono[OF hd] by blast
        show "\<forall>k items x. (ins(key \<mapsto> old @ [?item])) k = Some items \<and> x \<in> set items
                \<longrightarrow> good_item (ls @ [raw]) x"
          using i' by blast
      qed
      with r show ?thesis by blast
    qed
  qed
qed

lemma parse_lines_inv:
  "parse_inv pre st \<Longrightarrow> \<exists>st'. parse_lines st ls = Some st' \<and> parse_inv (pre @ ls) st'"
proof (induction ls arbitrary: pre st)
  case Nil
  then show ?case by simp
next
  case (Cons raw rest)
  from parse_line_inv[OF Cons.prems, of raw] obtain st1
    where s1: "parse_line st raw = Some st1" and i1: "parse_inv (pre @ [raw]) st1"
    by blast
  from Cons.IH[OF i1] s1 show ?case by simp
qed

lemma parse_inv_init:
  "parse_inv [] ([''entities'' \<mapsto> [], ''themes'' \<mapsto> [], ''action_items'' \<mapsto> []], None)"
proof -
  have "dom [''entities'' \<mapsto> ([]::string list), ''themes'' \<mapsto> [], ''action_items'' \<mapsto> []]
          = insight_keys"
    by (simp add: insight_keys_def insert_commute)
  moreover have "x \<notin> set its"
    if "[''entities'' \<mapsto> ([]::string list), ''themes'' \<mapsto> [], ''action_items'' \<mapsto> []] k = Some its"
    for k its and x :: string
    using that by (simp split: if_splits)
  ultimately show ?thesis unfolding parse_inv_def fst_conv snd_conv by blast
qed

text \<open>
  Claim C9 (shape of the parsed insights). For every input string \<open>_parse_insights\<close>
  returns (it never raises) a dictionary with exactly the keys \<open>entities\<close>, \<open>themes\<close>
  and \<open>action_items\<close>. Every item of every list is a non-empty string, is not
  \<open>none identified\<close> in any letter case, and comes from a line that, trimmed as the
  loop trims it, starts with \<open>''- ''\<close>, is not a header line and follows a header line.
\<close>

theorem parse_insights_shape:
  "\<exists>m. parse_insights c = Some m
       \<and> dom m = {''entities'', ''themes'', ''action_items''}
       \<and> (\<forall>k items x. m k = Some items \<and> x \<in> set items \<longrightarrow>
             x \<noteq> [] \<and> lower x \<noteq> ''none identified''
             \<and> contributed (split_on newline c) x)"
proof -
  from parse_lines_inv[OF parse_inv_init, of "split_on newline c"] obtain st'
    where r: "parse_lines ([''entities'' \<mapsto> [], ''themes'' \<mapsto> [], ''action_items'' \<mapsto> []], None)
                (split_on newline c) = Some st'"
      and i: "parse_inv (split_on newline c) st'"
    by auto
  from r have p: "parse_insights c = Some (fst st')" by (simp add: parse_insights_def)
  from i have d: "dom (fst st') = {''entities'', ''themes'', ''action_items''}"
    and g: "\<And>k items x. fst st' k = Some items \<Longrightarrow> x \<in> set items \<Longrightarrow> good_item (split_on newline c) x"
    unfolding parse_inv_def insight_keys_def by simp_all
  from g have "\<forall>k items x. fst st' k = Some items \<and> x \<in> set items \<longrightarrow>
             x \<noteq> [] \<and> lower x \<noteq> ''none identified''
             \<and> contributed (split_on newline c) x"
    unfolding good_item_def by blast
  with p d show ?thesis by blast
qed

theorem parse_insights_shape_witness:
  "\<exists>m. parse_insights (''KEY ENTITIES:'' @ [newline] @ '' - Al '') = Some m
       \<and> dom m = {''entities'', ''themes'', ''action_items''}
       \<and> m ''entities'' = Some [''Al'']
       \<and> ''Al'' \<noteq> [] \<and> lower ''Al'' \<noteq> ''none identified''
       \<and> contributed (split_on newline (''KEY ENTITIES:'' @ [newline] @ '' - Al '')) ''Al''"
proof -
  let ?c = "''KEY ENTITIES:'' @ [newline] @ '' - Al ''"
  let ?ins0 = "[''entities'' \<mapsto> [], ''themes'' \<mapsto> [], ''action_items'' \<mapsto> []]
                 :: string \<rightharpoonup> string list"
  have sp: "split_on newline ?c = [''KEY ENTITIES:'', '' - Al '']"
    by (simp add: newline_def)
  have s1: "strip ''KEY ENTITIES:'' = ''KEY ENTITIES:''"
    by (simp add: strip_def lstrip_def rstrip_def is_space_def)
  have s2: "strip '' - Al '' = ''- Al''"
    by (simp add: strip_def lstrip_def rstrip_def is_space_def)
  have s3: "strip (drop 2 ''- Al'') = ''Al''"
    by (simp add: strip_def lstrip_def rstrip_def is_space_def)
  have s4: "strip ''Al'' = ''Al''"
    by (simp add: strip_def lstrip_def rstrip_def is_space_def)
  have h1: "contains ''KEY ENTITIES:'' ''KEY ENTITIES:''"
    by (simp add: contains_def occurrences_def)
  have h2: "\<not> is_header ''- Al''"
    by (simp add: is_header_def contains_def occurrences_def)
  have "length (lower ''Al'') \<noteq> length ''none identified''"
    by (simp add: lower_def)
  then have lw: "lower ''Al'' \<noteq> ''none identified''" by metis
  have l1: "parse_line (?ins0, None) ''KEY ENTITIES:'' = Some (?ins0, Some ''entities'')"
    using h1 by (simp add: parse_line_def s1)
  have l2: "parse_line (?ins0, Some ''entities'') '' - Al ''
            = Some (?ins0(''entities'' \<mapsto> [''Al'']), Some ''entities'')"
    using parse_line_item[of "'' - Al ''" "''entities''" ?ins0 "[]"]
    by (simp add: s2 s3 s4 h2 lw startswith_def)
  have "parse_lines (?ins0, None) [''KEY ENTITIES:'', '' - Al '']
        = Some (?ins0(''entities'' \<mapsto> [''Al'']), Some ''entities'')"
    by (simp only: parse_lines.simps l1 l2 option.case)
  then have ev: "parse_insights ?c = Some (?ins0(''entities'' \<mapsto> [''Al'']))"
    by (simp only: parse_insights_def sp option.map fst_conv)
  from parse_insights_shape[of ?c] obtain m where m: "parse_insights ?c = Some m"
    and d: "dom m = {''entities'', ''themes'', ''action_items''}"
    and g: "\<forall>k items x. m k = Some items \<and> x \<in> set items \<longrightarrow>
             x \<noteq> [] \<and> lower x \<noteq> ''none identified''
             \<and> contributed (split_on newline ?c) x"
    by (elim exE conjE)
  from m ev have "m = ?ins0(''entities'' \<mapsto> [''Al''])" by (simp only: option.inject)
  then have e: "m ''entities'' = Some [''Al'']" by (simp only: fun_upd_same)
  have "''Al'' \<in> set [''Al'']" by (simp only: list.set_intros)
  note g1 = g[THEN spec, of "''entities''", THEN spec, of "[''Al'']", THEN spec, of "''Al''"]
  have k: "''Al'' \<noteq> [] \<and> lower ''Al'' \<noteq> ''none identified''
             \<and> contributed (split_on newline ?c) ''Al''"
    by (rule mp[OF g1 conjI[OF e \<open>''Al'' \<in> set [''Al'']\<close>]])
  show ?thesis
  proof (intro exI conjI)
    show "parse_insights ?c = Some m" by (rule m)
    show "dom m = {''entities'', ''themes'', ''action_items''}" by (rule d)
    show "m ''entities'' = Some [''Al'']" by (rule e)
    show "''Al'' \<noteq> []" using k by (rule conjunct1)
    show "lower ''Al'' \<noteq> ''none identified''" using k by (elim conjE)
    show "contributed (split_on newline ?c) ''Al''" using k by (elim conjE)
  qed
qed

end
